theory Spec2Isabelle
  imports Main "HOL-Library.AList"
begin

text \<open>
  A shallow embedding of \<open>supabase-tailer\<close>: the program tails files, rebuilds their lines
  and sends them in batches to a table of a remote store. The first sections translate
  the program: the credentials and options, the records and the delivery loop, the tail
  sessions, and the event loop as a transition system over the state of the program.
  The later sections prove the properties.
\<close>

section \<open>Values, options and credentials\<close>

text \<open>
  The claims of a token are JSON values. A JavaScript value that may be \<open>undefined\<close> is a
  \<open>json option\<close>, with \<open>None\<close> for \<open>undefined\<close>. Numbers are kept as integers: the
  program only ever tests a number for being zero. Inherited (prototype) properties of
  objects are not part of the model.
\<close>

datatype json =
    JNull
  | JBool bool
  | JNum int
  | JStr string
  | JArr "json list"
  | JObj "(string \<times> json) list"

datatype error =
    Exit nat
  | Error string

text \<open>\<open>!v\<close> is \<open>\<not> truthy v\<close>.\<close>

fun truthy :: "json option \<Rightarrow> bool" where
  "truthy None = False"
| "truthy (Some JNull) = False"
| "truthy (Some (JBool b)) = b"
| "truthy (Some (JNum n)) = (n \<noteq> 0)"
| "truthy (Some (JStr s)) = (s \<noteq> [])"
| "truthy (Some (JArr _)) = True"
| "truthy (Some (JObj _)) = True"

text \<open>\<open>a ?? b\<close>: the right operand replaces only \<open>undefined\<close> and \<open>null\<close>.\<close>

fun nullish :: "json option \<Rightarrow> bool" where
  "nullish None = True"
| "nullish (Some JNull) = True"
| "nullish (Some _) = False"

definition coalesce :: "json option \<Rightarrow> json option \<Rightarrow> json option" where
  "coalesce a b = (if nullish a then b else a)"

text \<open>\<open>x?.[k]\<close> and, on an object, \<open>x[k]\<close>.\<close>

fun get_prop :: "json option \<Rightarrow> string \<Rightarrow> json option" where
  "get_prop (Some (JObj kvs)) k = map_of kvs k"
| "get_prop _ k = None"

text \<open>
  \<open>getCredentialsFromToken\<close>. The decoder of the token library is a parameter: given the
  token it either throws or returns what the program reads as \<open>out?.payload\<close>.
\<close>

definition getCredentialsFromToken ::
  "(string \<Rightarrow> error + json option) \<Rightarrow> string \<Rightarrow> error + (json option \<times> json option)" where
  "getCredentialsFromToken decode token =
     (if token = [] then Inl (Error ''cannot get client for blank token'')
      else case decode token of
        Inl e \<Rightarrow> Inl e
      | Inr out_payload \<Rightarrow>
          (let userId = coalesce (coalesce (get_prop out_payload ''userId'') (get_prop out_payload ''sub''))
                          (Some JNull);
               payload = coalesce out_payload (Some JNull)
           in if \<not> truthy userId then Inl (Error ''could not get user id from token'')
              else Inr (userId, payload)))"


definition numRetries :: nat where
  "numRetries = 10"

definition retryDelayMs :: nat where
  "retryDelayMs = 1000"

text \<open>What \<open>main\<close> has established once the options and the token are accepted.\<close>

record config =
  userId :: "json option"
  authId :: "json option"
  tableName :: string
  databaseIdKey :: string

text \<open>
  The opening of \<open>main\<close>: the positional arguments, the four options and the token.
  \<open>opts\<close> is the parsed option object; an option that was not given, or given empty, is
  falsy.
\<close>

definition opt :: "(string \<rightharpoonup> string) \<Rightarrow> string \<Rightarrow> string" where
  "opt opts name = (case opts name of None \<Rightarrow> [] | Some v \<Rightarrow> v)"

definition resolve_credentials ::
  "(string \<Rightarrow> error + json option) \<Rightarrow> string \<Rightarrow> string
     \<Rightarrow> error + (json option \<times> json option \<times> json option)" where
  "resolve_credentials decode jwt authIdKey =
     (case getCredentialsFromToken decode jwt of
        Inl e \<Rightarrow> Inl e
      | Inr (uid, payload) \<Rightarrow>
          (let aid = get_prop payload authIdKey
           in if \<not> truthy aid then Inl (Error ''Error: No auth id found in payload'')
              else Inr (uid, payload, aid)))"

definition main_config ::
  "(string \<Rightarrow> error + json option) \<Rightarrow> (string \<rightharpoonup> string) \<Rightarrow> string list \<Rightarrow> error + config" where
  "main_config decode opts paths =
     (if paths = [] then Inl (Exit 1)
      else if opt opts ''jwt'' = [] then Inl (Error ''Error: No JWT token specified'')
      else if opt opts ''tableName'' = [] then Inl (Error ''Error: No table name specified'')
      else if opt opts ''databaseIdKey'' = [] then Inl (Error ''Error: No database id key specified'')
      else if opt opts ''authIdKey'' = [] then Inl (Error ''Error: No auth id key specified'')
      else case resolve_credentials decode (opt opts ''jwt'') (opt opts ''authIdKey'') of
        Inl e \<Rightarrow> Inl e
      | Inr (uid, payload, aid) \<Rightarrow>
          Inr \<lparr>userId = uid, authId = aid, tableName = opt opts ''tableName'',
               databaseIdKey = opt opts ''databaseIdKey''\<rparr>)"

section \<open>Records and the delivery loop\<close>

text \<open>
  A record for the sink is a JavaScript object literal: its properties are set one after
  the other, and setting a name a second time overwrites the first value in place.
\<close>

type_synonym entry = "(string \<times> json option) list"

definition make_entry :: "config \<Rightarrow> string \<Rightarrow> string \<Rightarrow> entry" where
  "make_entry cfg stream line =
     AList.update ''stream'' (Some (JStr stream))
       (AList.update ''content'' (Some (JStr line))
         (AList.update (databaseIdKey cfg) (authId cfg)
           (AList.update ''user_id'' (userId cfg) [])))"

definition field :: "entry \<Rightarrow> string \<Rightarrow> json option" where
  "field e k = (case map_of e k of None \<Rightarrow> None | Some v \<Rightarrow> v)"

datatype effect =
    Insert string "entry list"
  | Wait nat

datatype outcome =
    Returned
  | Thrown string

text \<open>
  The \<open>for\<close> loop of the flush callback, from iteration \<open>i\<close>. \<open>sink i\<close> is the error the
  sink reports for the call made in iteration \<open>i\<close>, \<open>None\<close> when it reports none. The
  result is the calls and waits performed, in order, and how the loop ends.
\<close>

function insert_loop ::
  "config \<Rightarrow> (nat \<Rightarrow> 'e option) \<Rightarrow> entry list \<Rightarrow> nat \<Rightarrow> effect list \<times> outcome" where
  "insert_loop cfg sink entries i =
     (if i < numRetries then
        (case sink i of
           None \<Rightarrow> ([Insert (tableName cfg) entries], Returned)
         | Some err \<Rightarrow>
             (let (tr, r) = insert_loop cfg sink entries (i + 1)
              in (Insert (tableName cfg) entries # Wait retryDelayMs # tr, r)))
      else ([], Thrown ''failed to insert log after 10 retries''))"
  by pat_completeness auto
termination
  by (relation "measure (\<lambda>(cfg, sink, entries, i). numRetries - i)") auto

declare insert_loop.simps [simp del]

text \<open>
  The flush callback run to its end with no line arriving meanwhile: the queue after it,
  the calls and waits, and the outcome.
\<close>

definition flush_callback ::
  "config \<Rightarrow> (nat \<Rightarrow> 'e option) \<Rightarrow> entry list \<Rightarrow> entry list \<times> effect list \<times> outcome" where
  "flush_callback cfg sink lineQueue =
     (let entries = lineQueue;
          lineQueue' = []
      in if entries \<noteq> [] then
           (let (tr, r) = insert_loop cfg sink entries 0 in (lineQueue', tr, r))
         else (lineQueue', [], Returned))"

definition inserts :: "effect list \<Rightarrow> (string \<times> entry list) list" where
  "inserts tr = concat (map (\<lambda>e. case e of Insert t es \<Rightarrow> [(t, es)] | Wait _ \<Rightarrow> []) tr)"

definition waits :: "effect list \<Rightarrow> nat list" where
  "waits tr = concat (map (\<lambda>e. case e of Insert _ _ \<Rightarrow> [] | Wait ms \<Rightarrow> [ms]) tr)"

text \<open>\<open>k\<close> failed attempts: each an \<open>insert\<close> call and the wait that follows it.\<close>

definition attempts :: "config \<Rightarrow> entry list \<Rightarrow> nat \<Rightarrow> effect list" where
  "attempts cfg es k = concat (replicate k [Insert (tableName cfg) es, Wait retryDelayMs])"

section \<open>Line reconstruction and tail sessions\<close>

definition newline :: char where
  "newline = CHR 0x0A"

text \<open>
  Modelled from the spec: the line splitter, a stream of the library \<open>split2\<close> that is not
  part of the sources. The input is split on the newline delimiter, the bytes after the
  last delimiter are held back (\<open>kLast\<close>) and prefixed onto the next chunk. \<open>split_nl\<close> is
  \<open>String.split\<close> on the delimiter: it returns at least one piece. The end of a stream is
  not modelled: a tail stream stays open.
\<close>

fun split_nl :: "string \<Rightarrow> string list" where
  "split_nl [] = [[]]"
| "split_nl (c # cs) =
     (if c = newline then [] # split_nl cs
      else case split_nl cs of [] \<Rightarrow> [[c]] | l # ls \<Rightarrow> (c # l) # ls)"

definition split2_write :: "string \<Rightarrow> string \<Rightarrow> string list \<times> string" where
  "split2_write kLast chunk = (let list = split_nl (kLast @ chunk) in (butlast list, last list))"

text \<open>
  One tail session: what \<open>addTailStream\<close> creates for a file. \<open>cursor\<close> is the position of
  the next byte the tail stream delivers; \<open>stdoutStream\<close> and \<open>stderrStream\<close> hold the chunks
  written to the two pass-through streams and not yet piped onwards.
\<close>

record session =
  path :: string
  start :: nat
  cursor :: nat
  kLast :: string
  stdoutStream :: "string list"
  stderrStream :: "string list"

definition addTailStream :: "(string \<rightharpoonup> string) \<Rightarrow> string \<Rightarrow> error + session" where
  "addTailStream fs p =
     (case fs p of
        None \<Rightarrow> Inl (Error ''ENOENT'')
      | Some content \<Rightarrow>
          (let initialSize = length content
           in Inr \<lparr>path = p, start = initialSize, cursor = initialSize, kLast = [],
                   stdoutStream = [], stderrStream = []\<rparr>))"

text \<open>
  Modelled from the spec: the stream of the library \<open>tail-file-stream\<close>, which is not part
  of the sources. Opened at an offset, it produces the bytes of the file from there on,
  as they are appended: a read delivers at most \<open>n\<close> further bytes, from the cursor. A
  file that does not exist has no bytes.
\<close>

definition file_content :: "(string \<rightharpoonup> string) \<Rightarrow> string \<Rightarrow> string" where
  "file_content fs p = (case fs p of None \<Rightarrow> [] | Some c \<Rightarrow> c)"

definition tail_read :: "(string \<rightharpoonup> string) \<Rightarrow> nat \<Rightarrow> session \<Rightarrow> string \<times> session" where
  "tail_read fs n t =
     (let content = file_content fs (path t);
          chunk = take n (drop (cursor t) content)
      in (chunk, t\<lparr>cursor := cursor t + length chunk\<rparr>))"

text \<open>The \<open>data\<close> handler of a session's splitter, and a chunk passing through the splitter.\<close>

definition tail_line :: "string \<Rightarrow> session \<Rightarrow> session" where
  "tail_line line t =
     (if line \<noteq> [] then t\<lparr>stdoutStream := stdoutStream t @ [line @ [newline]]\<rparr> else t)"

definition tail_data :: "string \<Rightarrow> session \<Rightarrow> session" where
  "tail_data chunk t =
     (let (lines, rest) = split2_write (kLast t) chunk
      in fold tail_line lines (t\<lparr>kLast := rest\<rparr>))"

section \<open>The pipeline as a transition system\<close>

text \<open>
  Modelled from the spec: the \<open>Debouncer\<close> of the batch delivery coordinator, an object of
  the library \<open>debouncer-async\<close> that is not part of the sources. A request for a turn
  schedules a flush when none is scheduled or running, and is absorbed otherwise; a
  request that arrives while a flush runs guarantees one more flush (\<open>Flushing True\<close>). A
  flush that ends without error leaves the follow-up scheduled, or the debouncer idle; a
  flush that throws is fatal.
\<close>

datatype dstate =
    Idle
  | Scheduled
  | Flushing bool
  | Fatal

definition waitForTurn :: "dstate \<Rightarrow> dstate" where
  "waitForTurn d =
     (case d of Idle \<Rightarrow> Scheduled | Scheduled \<Rightarrow> Scheduled
      | Flushing _ \<Rightarrow> Flushing True | Fatal \<Rightarrow> Fatal)"

definition turn_done :: "outcome \<Rightarrow> dstate \<Rightarrow> dstate" where
  "turn_done r d =
     (case r of
        Thrown _ \<Rightarrow> Fatal
      | Returned \<Rightarrow> (case d of Flushing True \<Rightarrow> Scheduled | _ \<Rightarrow> Idle))"

text \<open>A flush callback suspended at one of its two \<open>await\<close>s.\<close>

datatype phase =
    AwaitInsert
  | AwaitTimer

record flight =
  entries :: "entry list"
  iter :: nat
  phase :: phase

text \<open>
  The state of the running program and of the files it tails. The last three fields are
  history: every chunk piped from a session into the global stdout stream, every record
  pushed on the queue, and every snapshot a flush took.
\<close>

record state =
  files :: "string \<rightharpoonup> string"
  watchers :: "string list"
  sessions :: "session list"
  globalStdout :: string
  globalStderr :: string
  lineQueue :: "entry list"
  debouncer :: dstate
  flights :: "flight list"
  trace :: "effect list"
  forwarded :: "(nat \<times> string) list"
  pushed :: "entry list"
  batches :: "entry list list"

text \<open>\<open>makeProcessLogLine stream\<close>, up to the request for a turn.\<close>

definition makeProcessLogLine :: "config \<Rightarrow> string \<Rightarrow> string \<Rightarrow> state \<Rightarrow> state" where
  "makeProcessLogLine cfg stream line s =
     (if line \<noteq> [] then
        (let entry = make_entry cfg stream line
         in s\<lparr>lineQueue := lineQueue s @ [entry],
              debouncer := waitForTurn (debouncer s),
              pushed := pushed s @ [entry]\<rparr>)
      else s)"

text \<open>The callback of flight \<open>j\<close> ends: by \<open>return\<close> or by \<open>throw\<close>.\<close>

definition settle :: "outcome \<Rightarrow> nat \<Rightarrow> state \<Rightarrow> state" where
  "settle r j s =
     s\<lparr>flights := take j (flights s) @ drop (Suc j) (flights s),
       debouncer := turn_done r (debouncer s)\<rparr>"

text \<open>The loop of flight \<open>j\<close> from its test to the \<open>insert\<close> call, or to the \<open>throw\<close>.\<close>

definition attempt :: "config \<Rightarrow> nat \<Rightarrow> state \<Rightarrow> state" where
  "attempt cfg j s =
     (let f = flights s ! j
      in if iter f < numRetries then
           s\<lparr>trace := trace s @ [Insert (tableName cfg) (entries f)],
             flights := (flights s)[j := f\<lparr>phase := AwaitInsert\<rparr>]\<rparr>
         else settle (Thrown ''failed to insert log after 10 retries'') j s)"

text \<open>
  The flush callback from its start to its first \<open>await\<close>, or to its end. Console output
  is not modelled.
\<close>

definition run_flush :: "config \<Rightarrow> state \<Rightarrow> state" where
  "run_flush cfg s =
     (let es = lineQueue s;
          s1 = s\<lparr>lineQueue := [], debouncer := Flushing False, batches := batches s @ [es]\<rparr>
      in if es \<noteq> [] then
           attempt cfg (length (flights s1))
             (s1\<lparr>flights := flights s1 @ [\<lparr>entries = es, iter = 0, phase = AwaitInsert\<rparr>]\<rparr>)
         else s1\<lparr>debouncer := turn_done Returned (debouncer s1)\<rparr>)"

datatype stream_name =
    Stdout
  | Stderr

datatype event =
    Append string string
  | Add nat string
  | Read nat nat
  | Forward nat stream_name
  | Stdin string
  | RunFlush
  | SinkReply nat "string option"
  | TimerFire nat

text \<open>
  One step of the event loop; \<open>None\<close> when the event cannot happen in the state.
  \<^item> \<open>Append p bytes\<close>: another process appends to file \<open>p\<close>, creating it if needed.
  \<^item> \<open>Add w p\<close>: watcher \<open>w\<close> reports the existing file \<open>p\<close>; its session is opened.
  \<^item> \<open>Read i n\<close>: the tail stream of session \<open>i\<close> delivers up to \<open>n\<close> bytes.
  \<^item> \<open>Forward i x\<close>: the next chunk of session \<open>i\<close>'s stream \<open>x\<close> reaches the splitter of the
    global stream, and each line it completes reaches \<open>makeProcessLogLine\<close>.
  \<^item> \<open>Stdin bytes\<close>: bytes arrive on standard input, which nothing reads.
  \<^item> \<open>RunFlush\<close>: the debouncer runs the scheduled flush.
  \<^item> \<open>SinkReply j err\<close>: the \<open>insert\<close> call of flight \<open>j\<close> settles, with an error or none.
  \<^item> \<open>TimerFire j\<close>: the backoff timer of flight \<open>j\<close> fires.
  Nothing is modelled after the flush callback has thrown.
\<close>

fun step :: "config \<Rightarrow> event \<Rightarrow> state \<Rightarrow> state option" where
  "step cfg (Append p bytes) s =
     (if debouncer s = Fatal then None
      else Some (s\<lparr>files := (files s)(p \<mapsto> file_content (files s) p @ bytes)\<rparr>))"
| "step cfg (Add w p) s =
     (if debouncer s = Fatal \<or> \<not> w < length (watchers s) then None
      else case addTailStream (files s) p of
        Inl e \<Rightarrow> None
      | Inr t \<Rightarrow> Some (s\<lparr>sessions := sessions s @ [t]\<rparr>))"
| "step cfg (Read i n) s =
     (if debouncer s = Fatal \<or> \<not> i < length (sessions s) then None
      else let (chunk, t) = tail_read (files s) n (sessions s ! i)
           in Some (s\<lparr>sessions := (sessions s)[i := tail_data chunk t]\<rparr>))"
| "step cfg (Forward i Stdout) s =
     (if debouncer s = Fatal \<or> \<not> i < length (sessions s) then None
      else case stdoutStream (sessions s ! i) of
        [] \<Rightarrow> None
      | chunk # rest \<Rightarrow>
          (let (lines, held) = split2_write (globalStdout s) chunk
           in Some (fold (makeProcessLogLine cfg ''stdout'') lines
                (s\<lparr>sessions := (sessions s)[i := (sessions s ! i)\<lparr>stdoutStream := rest\<rparr>],
                   globalStdout := held,
                   forwarded := forwarded s @ [(i, chunk)]\<rparr>))))"
| "step cfg (Forward i Stderr) s =
     (if debouncer s = Fatal \<or> \<not> i < length (sessions s) then None
      else case stderrStream (sessions s ! i) of
        [] \<Rightarrow> None
      | chunk # rest \<Rightarrow>
          (let (lines, held) = split2_write (globalStderr s) chunk
           in Some (fold (makeProcessLogLine cfg ''stderr'') lines
                (s\<lparr>sessions := (sessions s)[i := (sessions s ! i)\<lparr>stderrStream := rest\<rparr>],
                   globalStderr := held\<rparr>))))"
| "step cfg (Stdin bytes) s = (if debouncer s = Fatal then None else Some s)"
| "step cfg RunFlush s = (if debouncer s = Scheduled then Some (run_flush cfg s) else None)"
| "step cfg (SinkReply j err) s =
     (if debouncer s = Fatal \<or> \<not> j < length (flights s) then None
      else if phase (flights s ! j) \<noteq> AwaitInsert then None
      else case err of
        None \<Rightarrow> Some (settle Returned j s)
      | Some _ \<Rightarrow>
          Some (s\<lparr>trace := trace s @ [Wait retryDelayMs],
                  flights := (flights s)[j := (flights s ! j)\<lparr>phase := AwaitTimer\<rparr>]\<rparr>))"
| "step cfg (TimerFire j) s =
     (if debouncer s = Fatal \<or> \<not> j < length (flights s) then None
      else if phase (flights s ! j) \<noteq> AwaitTimer then None
      else Some (attempt cfg j
             (s\<lparr>flights := (flights s)[j := (flights s ! j)\<lparr>iter := iter (flights s ! j) + 1\<rparr>]\<rparr>)))"

fun run :: "config \<Rightarrow> event list \<Rightarrow> state \<Rightarrow> state option" where
  "run cfg [] s = Some s"
| "run cfg (e # es) s = (case step cfg e s of None \<Rightarrow> None | Some s' \<Rightarrow> run cfg es s')"

text \<open>
  The loop of \<open>main\<close> over the source specifications: the paths that get a watcher.
  \<open>spec_path\<close> is the second group of the match of \<open>/^(?:([^:]+):)?([\s\S]*)$/\<close>, and
  \<open>resolve\<close> stands for \<open>path.resolve\<close>. For the sentinel the loop assigns the standard
  input to a variable of its body and does nothing more.
\<close>

definition spec_path :: "string \<Rightarrow> string" where
  "spec_path pathSpec =
     (let tag = takeWhile (\<lambda>c. c \<noteq> CHR '':'') pathSpec;
          rest = dropWhile (\<lambda>c. c \<noteq> CHR '':'') pathSpec
      in if tag \<noteq> [] \<and> rest \<noteq> [] then tl rest else pathSpec)"

fun watch_paths :: "(string \<Rightarrow> string) \<Rightarrow> string list \<Rightarrow> string list \<Rightarrow> string list" where
  "watch_paths resolve [] ws = ws"
| "watch_paths resolve (pathSpec # paths) ws =
     (if pathSpec = ''-'' then watch_paths resolve paths ws
      else watch_paths resolve paths (ws @ [resolve (spec_path pathSpec)]))"

definition init_state :: "(string \<rightharpoonup> string) \<Rightarrow> string list \<Rightarrow> state" where
  "init_state fs ws =
     \<lparr>files = fs, watchers = ws, sessions = [], globalStdout = [], globalStderr = [],
      lineQueue = [], debouncer = Idle, flights = [], trace = [],
      forwarded = [], pushed = [], batches = []\<rparr>"

text \<open>
  \<open>createClient\<close>, as far as it can fail, and \<open>main\<close> up to the point where the pipeline
  runs: the configuration, the watchers, the client. \<open>env\<close> is the process environment.
\<close>

definition createClient :: "(string \<rightharpoonup> string) \<Rightarrow> string \<Rightarrow> error + unit" where
  "createClient env jwt =
     (if opt env ''SUPABASE_URL'' = [] then Inl (Error ''SUPABASE_URL is not set'')
      else if opt env ''SUPABASE_ANON_KEY'' = [] then Inl (Error ''SUPABASE_ANON_KEY is not set'')
      else if jwt = [] then Inl (Error ''JWT is not set'')
      else Inr ())"

definition main ::
  "(string \<Rightarrow> error + json option) \<Rightarrow> (string \<Rightarrow> string) \<Rightarrow> (string \<rightharpoonup> string) \<Rightarrow>
     (string \<rightharpoonup> string) \<Rightarrow> string list \<Rightarrow> (string \<rightharpoonup> string) \<Rightarrow> error + config \<times> state" where
  "main decode resolve env opts paths fs =
     (case main_config decode opts paths of
        Inl e \<Rightarrow> Inl e
      | Inr cfg \<Rightarrow>
          (case createClient env (opt opts ''jwt'') of
             Inl e \<Rightarrow> Inl e
           | Inr _ \<Rightarrow> Inr (cfg, init_state fs (watch_paths resolve paths []))))"

section \<open>Observations and invariants\<close>

text \<open>The well-formed chunks of a session's stdout stream: one non-empty line and its newline.\<close>

definition chunk_ok :: "string \<Rightarrow> bool" where
  "chunk_ok c \<longleftrightarrow> c \<noteq> [] \<and> last c = newline \<and> butlast c \<noteq> [] \<and> newline \<notin> set (butlast c)"

text \<open>The bytes the tail stream of a session has delivered so far.\<close>

definition session_input :: "(string \<rightharpoonup> string) \<Rightarrow> session \<Rightarrow> string" where
  "session_input fs t = take (cursor t - start t) (drop (start t) (file_content fs (path t)))"

text \<open>The non-empty lines that a byte sequence completes, in order.\<close>

definition complete_lines :: "string \<Rightarrow> string list" where
  "complete_lines bytes = filter (\<lambda>l. l \<noteq> []) (butlast (split_nl bytes))"

text \<open>The chunks that reached the global stdout stream from session \<open>i\<close>, in order.\<close>

definition forwarded_from :: "nat \<Rightarrow> (nat \<times> string) list \<Rightarrow> string list" where
  "forwarded_from i fwd = map snd (filter (\<lambda>(j, c). j = i) fwd)"

text \<open>The records of all \<open>insert\<close> calls made so far.\<close>

definition delivered :: "state \<Rightarrow> entry list" where
  "delivered s = concat (map snd (inserts (trace s)))"

text \<open>A record whose \<open>content\<close> is a non-empty string.\<close>

definition content_nonempty :: "entry \<Rightarrow> bool" where
  "content_nonempty e = (case field e ''content'' of Some (JStr l) \<Rightarrow> l \<noteq> [] | _ \<Rightarrow> False)"

text \<open>
  The coordinator invariant: every record pushed is in exactly one snapshot or still
  queued; an idle debouncer has neither a flight nor a queued record, a scheduled flush
  has a record to take, a running flush has exactly one flight, which carries the last
  snapshot, and a follow-up is pending exactly when something was queued meanwhile; and
  every \<open>insert\<close> call made so far sent a non-empty snapshot to the table.
\<close>

definition coordinator_ok :: "config \<Rightarrow> state \<Rightarrow> bool" where
  "coordinator_ok cfg s \<longleftrightarrow>
     pushed s = concat (batches s) @ lineQueue s \<and>
     (case debouncer s of
        Idle \<Rightarrow> flights s = [] \<and> lineQueue s = []
      | Scheduled \<Rightarrow> flights s = [] \<and> lineQueue s \<noteq> []
      | Flushing p \<Rightarrow>
          length (flights s) = 1 \<and> iter (hd (flights s)) < numRetries \<and>
          batches s \<noteq> [] \<and> entries (hd (flights s)) = last (batches s) \<and>
          last (batches s) \<noteq> [] \<and> p = (lineQueue s \<noteq> [])
      | Fatal \<Rightarrow> flights s = []) \<and>
     list_all (\<lambda>(t, es). t = tableName cfg \<and> es \<noteq> [] \<and> es \<in> set (batches s))
       (inserts (trace s))"

text \<open>
  The stream invariant: the splitters of the two global streams hold no partial line, no
  session has anything in its stderr stream, every chunk in a stdout stream or forwarded
  from one is a non-empty line with its newline, and the records pushed are exactly the
  lines forwarded, in that order, tagged \<open>stdout\<close>.
\<close>

definition streams_ok :: "config \<Rightarrow> state \<Rightarrow> bool" where
  "streams_ok cfg s \<longleftrightarrow>
     globalStdout s = [] \<and> globalStderr s = [] \<and>
     list_all (\<lambda>t. stderrStream t = [] \<and> list_all chunk_ok (stdoutStream t)) (sessions s) \<and>
     list_all (\<lambda>(j, c). j < length (sessions s) \<and> chunk_ok c) (forwarded s) \<and>
     pushed s = map (\<lambda>(j, c). make_entry cfg ''stdout'' (butlast c)) (forwarded s)"

text \<open>
  The tail invariant: each session has read the file from its start offset up to its
  cursor, holds back the unfinished line of those bytes, and has written, in order, the
  non-empty lines they complete; the ones already forwarded come first.
\<close>

definition tails_ok :: "state \<Rightarrow> bool" where
  "tails_ok s \<longleftrightarrow>
     (\<forall>i < length (sessions s).
        start (sessions s ! i) \<le> cursor (sessions s ! i) \<and>
        cursor (sessions s ! i) \<le> length (file_content (files s) (path (sessions s ! i))) \<and>
        kLast (sessions s ! i) = last (split_nl (session_input (files s) (sessions s ! i))) \<and>
        forwarded_from i (forwarded s) @ stdoutStream (sessions s ! i) =
          map (\<lambda>l. l @ [newline]) (complete_lines (session_input (files s) (sessions s ! i))))"

section \<open>Example inputs\<close>




text \<open>The configurations that \<open>main\<close> builds from the two option objects.\<close>

definition example_config :: config where
  "example_config = \<lparr>userId = Some (JStr ''u1''), authId = Some (JStr ''a7''),
     tableName = ''logs'', databaseIdKey = ''agent_id''\<rparr>"


text \<open>One file, three lines appended after its discovery; the second is empty.\<close>

definition example_events :: "event list" where
  "example_events =
     [Append ''/a.log'' [], Add 0 ''/a.log'',
      Append ''/a.log'' (''one'' @ [newline] @ [newline] @ ''two'' @ [newline] @ ''three'' @ [newline]),
      Read 0 100, Forward 0 Stdout, RunFlush, Forward 0 Stdout, Forward 0 Stdout]"






text \<open>Standard input given as the only source, and bytes arriving on it.\<close>

definition stdin_events :: "event list" where
  "stdin_events = [Stdin (''hello'' @ [newline]), Stdin (''world'' @ [newline])]"

text \<open>
  The events that drive flight 0 from the \<open>insert\<close> call of iteration \<open>i\<close> to its end, at
  most \<open>k\<close> calls on, when the sink answers as \<open>sink\<close> says and nothing else happens.
\<close>

fun sink_events :: "(nat \<Rightarrow> string option) \<Rightarrow> nat \<Rightarrow> nat \<Rightarrow> event list" where
  "sink_events sink 0 i = []"
| "sink_events sink (Suc k) i =
     (case sink i of
        None \<Rightarrow> [SinkReply 0 None]
      | Some err \<Rightarrow> SinkReply 0 (Some err) # TimerFire 0 # sink_events sink k (Suc i))"

section \<open>Properties of the delivery loop\<close>

lemma inserts_simps [simp]:
  "inserts [] = []"
  "inserts (Insert t es # tr) = (t, es) # inserts tr"
  "inserts (Wait ms # tr) = inserts tr"
  "inserts (xs @ ys) = inserts xs @ inserts ys"
  by (simp_all add: inserts_def)

lemma waits_simps [simp]:
  "waits [] = []"
  "waits (Insert t es # tr) = waits tr"
  "waits (Wait ms # tr) = ms # waits tr"
  "waits (xs @ ys) = waits xs @ waits ys"
  by (simp_all add: waits_def)

lemma attempts_simps [simp]:
  "attempts cfg es 0 = []"
  "attempts cfg es (Suc k) = Insert (tableName cfg) es # Wait retryDelayMs # attempts cfg es k"
  by (simp_all add: attempts_def)

lemma inserts_attempts [simp]: "inserts (attempts cfg es k) = replicate k (tableName cfg, es)"
  by (induction k) simp_all

lemma waits_attempts [simp]: "waits (attempts cfg es k) = replicate k retryDelayMs"
  by (induction k) simp_all

lemma insert_loop_fails_then_succeeds:
  "i + k < numRetries \<Longrightarrow> \<forall>j. i \<le> j \<and> j < i + k \<longrightarrow> sink j \<noteq> None \<Longrightarrow> sink (i + k) = None \<Longrightarrow>
   insert_loop cfg sink es i = (attempts cfg es k @ [Insert (tableName cfg) es], Returned)"
proof (induction k arbitrary: i)
  case 0
  then show ?case by (subst insert_loop.simps) simp
next
  case (Suc k)
  from Suc.prems have f: "sink i \<noteq> None" by simp
  have "insert_loop cfg sink es (i + 1) = (attempts cfg es k @ [Insert (tableName cfg) es], Returned)"
    using Suc.prems by (intro Suc.IH) auto
  with f Suc.prems show ?case by (subst insert_loop.simps) auto
qed

lemma insert_loop_always_fails:
  "i + k = numRetries \<Longrightarrow> \<forall>j. i \<le> j \<and> j < numRetries \<longrightarrow> sink j \<noteq> None \<Longrightarrow>
   insert_loop cfg sink es i = (attempts cfg es k, Thrown ''failed to insert log after 10 retries'')"
proof (induction k arbitrary: i)
  case 0
  then show ?case by (subst insert_loop.simps) simp
next
  case (Suc k)
  from Suc.prems have f: "sink i \<noteq> None" "i < numRetries" by simp_all
  have "insert_loop cfg sink es (i + 1) = (attempts cfg es k, Thrown ''failed to insert log after 10 retries'')"
    using Suc.prems by (intro Suc.IH) auto
  with f show ?case by (subst insert_loop.simps) auto
qed

text \<open>
  Claim C1. On a non-empty batch, a sink that fails \<open>k < 10\<close> times and then succeeds gets
  \<open>k + 1\<close> insert calls, all with the snapshot as it was taken, the last one being the last
  thing the loop does, with \<open>k\<close> waits of the backoff delay between them, and the callback
  returns. A sink that fails every time gets exactly ten insert calls with the snapshot,
  then the callback throws. In both cases the queue is left empty: the batch is not put
  back.
\<close>

theorem retry_bound:
  assumes "queue \<noteq> []"
  shows "(k < numRetries \<and> (\<forall>j<k. sink j \<noteq> None) \<and> sink k = None \<longrightarrow>
            (case flush_callback cfg sink queue of (q', tr, r) \<Rightarrow>
               r = Returned \<and> waits tr = replicate k retryDelayMs \<and>
               inserts tr = replicate (k + 1) (tableName cfg, queue) \<and>
               last tr = Insert (tableName cfg) queue \<and> q' = []))
       \<and> ((\<forall>j<numRetries. sink' j \<noteq> None) \<longrightarrow>
            (case flush_callback cfg sink' queue of (q', tr, r) \<Rightarrow>
               r = Thrown ''failed to insert log after 10 retries'' \<and>
               inserts tr = replicate 10 (tableName cfg, queue) \<and> q' = []))"
proof (intro conjI impI)
  assume h: "k < numRetries \<and> (\<forall>j<k. sink j \<noteq> None) \<and> sink k = None"
  then have "insert_loop cfg sink queue 0 = (attempts cfg queue k @ [Insert (tableName cfg) queue], Returned)"
    by (intro insert_loop_fails_then_succeeds) auto
  with assms show "case flush_callback cfg sink queue of (q', tr, r) \<Rightarrow>
               r = Returned \<and> waits tr = replicate k retryDelayMs \<and>
               inserts tr = replicate (k + 1) (tableName cfg, queue) \<and>
               last tr = Insert (tableName cfg) queue \<and> q' = []"
    by (simp add: flush_callback_def replicate_append_same)
next
  assume h: "\<forall>j<numRetries. sink' j \<noteq> None"
  then have "insert_loop cfg sink' queue 0 = (attempts cfg queue numRetries, Thrown ''failed to insert log after 10 retries'')"
    by (intro insert_loop_always_fails) auto
  with assms show "case flush_callback cfg sink' queue of (q', tr, r) \<Rightarrow>
               r = Thrown ''failed to insert log after 10 retries'' \<and>
               inserts tr = replicate 10 (tableName cfg, queue) \<and> q' = []"
    by (simp add: flush_callback_def numRetries_def)
qed

theorem retry_bound_witness:
  "[make_entry example_config ''stdout'' ''hello''] \<noteq> [] \<and>
   (3::nat) < numRetries \<and>
   list_all (\<lambda>j. (if j < 3 then Some () else None) \<noteq> None) [0..<3] \<and>
   (\<lambda>j. if j < 3 then Some () else None) (3::nat) = None \<and>
   (case flush_callback example_config (\<lambda>j. if j < 3 then Some () else None)
           [make_entry example_config ''stdout'' ''hello''] of
      (q', tr, r) \<Rightarrow>
        r = Returned \<and> waits tr = [1000, 1000, 1000] \<and> length (inserts tr) = 4 \<and>
        last tr = Insert ''logs'' [make_entry example_config ''stdout'' ''hello''] \<and> q' = []) \<and>
   list_all (\<lambda>j. (\<lambda>j. Some ()) j \<noteq> None) [0..<numRetries] \<and>
   (case flush_callback example_config (\<lambda>j. Some ())
           [make_entry example_config ''stdout'' ''hello''] of
      (q', tr, r) \<Rightarrow>
        r = Thrown ''failed to insert log after 10 retries'' \<and> length (inserts tr) = 10 \<and>
        q' = [])"
  using retry_bound [where queue = "[make_entry example_config ''stdout'' ''hello'']"
      and k = 3 and sink = "\<lambda>j. if j < 3 then Some () else None" and sink' = "\<lambda>j. Some ()"
      and cfg = example_config]
  by (auto simp: numRetries_def retryDelayMs_def example_config_def numeral_3_eq_3 list_all_iff
      split: prod.splits)

section \<open>Properties of credential resolution\<close>

lemma truthy_coalesce_null [simp]: "truthy (coalesce a (Some JNull)) = truthy a"
  by (cases a rule: nullish.cases) (simp_all add: coalesce_def)

lemma truthy_not_nullish: "truthy a \<Longrightarrow> \<not> nullish a"
  by (cases a rule: nullish.cases) simp_all

lemma coalesce_truthy [simp]: "truthy a \<Longrightarrow> coalesce a b = a"
  by (simp add: coalesce_def truthy_not_nullish)

lemma truthy_get_prop: "truthy (get_prop p k) \<Longrightarrow> \<not> nullish p"
  by (cases "(p, k)" rule: get_prop.cases) simp_all








section \<open>Invariants of the pipeline\<close>

lemma split_nl_not_Nil [simp]: "split_nl bs \<noteq> []"
  by (induction bs) (auto split: list.splits)

lemma split_nl_no_newline: "l \<in> set (split_nl bs) \<Longrightarrow> newline \<notin> set l"
proof (induction bs arbitrary: l)
  case Nil
  then show ?case by simp
next
  case (Cons c cs)
  show ?case
  proof (cases "c = newline")
    case True
    with Cons show ?thesis by auto
  next
    case False
    obtain x xs where sp: "split_nl cs = x # xs"
      by (cases "split_nl cs") simp_all
    with False Cons.prems have "l = c # x \<or> l \<in> set xs" by auto
    with False sp Cons.IH [of x] Cons.IH [of l] show ?thesis by auto
  qed
qed

lemma split_nl_plain: "newline \<notin> set l \<Longrightarrow> split_nl l = [l]"
  by (induction l) auto

lemma split_nl_append:
  "split_nl (xs @ ys) = butlast (split_nl xs) @ split_nl (last (split_nl xs) @ ys)"
proof (induction xs)
  case Nil
  then show ?case by simp
next
  case (Cons c cs)
  show ?case
  proof (cases "c = newline")
    case True
    with Cons show ?thesis by simp
  next
    case False
    obtain x xs' where sp: "split_nl cs = x # xs'"
      by (cases "split_nl cs") simp_all
    show ?thesis
    proof (cases "xs' = []")
      case True
      with sp False Cons.IH show ?thesis by simp
    next
      case False
      then obtain y ys' where "xs' = y # ys'" by (cases xs') simp_all
      with sp \<open>c \<noteq> newline\<close> Cons.IH show ?thesis by simp
    qed
  qed
qed

lemma split_nl_line: "newline \<notin> set l \<Longrightarrow> split_nl (l @ [newline]) = [l, []]"
  by (induction l) auto

lemma split2_write_line:
  "chunk_ok c \<Longrightarrow> split2_write [] c = ([butlast c], [])"
proof -
  assume c: "chunk_ok c"
  then have "c = butlast c @ [newline]"
    by (metis append_butlast_last_id chunk_ok_def)
  moreover from c have "newline \<notin> set (butlast c)" by (simp add: chunk_ok_def)
  ultimately have "split_nl c = [butlast c, []]"
    using split_nl_line [of "butlast c"] by simp
  then show ?thesis by (simp add: split2_write_def)
qed

lemma fold_tail_line:
  "fold tail_line ls t =
     t\<lparr>stdoutStream := stdoutStream t @ map (\<lambda>l. l @ [newline]) (filter (\<lambda>l. l \<noteq> []) ls)\<rparr>"
  by (induction ls arbitrary: t) (simp_all add: tail_line_def)

lemma tail_data_eq:
  "tail_data chunk t =
     t\<lparr>kLast := last (split_nl (kLast t @ chunk)),
       stdoutStream := stdoutStream t @
         map (\<lambda>l. l @ [newline]) (filter (\<lambda>l. l \<noteq> []) (butlast (split_nl (kLast t @ chunk))))\<rparr>"
  by (simp add: tail_data_def split2_write_def fold_tail_line Let_def)

lemma complete_lines_append:
  "complete_lines (xs @ ys) =
     complete_lines xs @ filter (\<lambda>l. l \<noteq> []) (butlast (split_nl (last (split_nl xs) @ ys)))"
  by (simp only: complete_lines_def split_nl_append [of xs ys]) (simp add: butlast_append)

lemma last_split_nl_append:
  "last (split_nl (xs @ ys)) = last (split_nl (last (split_nl xs) @ ys))"
  by (simp only: split_nl_append [of xs ys]) simp

lemma run_invariant:
  assumes "\<And>e s s'. Q s \<Longrightarrow> step cfg e s = Some s' \<Longrightarrow> Q s'"
  shows "Q s \<Longrightarrow> run cfg evs s = Some s' \<Longrightarrow> Q s'"
proof (induction evs arbitrary: s)
  case Nil
  then show ?case by simp
next
  case (Cons e evs)
  from Cons.prems(2) obtain s1 where s1: "step cfg e s = Some s1" "run cfg evs s1 = Some s'"
    by (auto split: option.splits)
  from assms Cons.prems(1) s1(1) have "Q s1" by blast
  with Cons.IH s1(2) show ?case by blast
qed

lemma coordinator_ok_other_fields [simp]:
  "coordinator_ok cfg (s\<lparr>files := a\<rparr>) = coordinator_ok cfg s"
  "coordinator_ok cfg (s\<lparr>sessions := b\<rparr>) = coordinator_ok cfg s"
  "coordinator_ok cfg (s\<lparr>globalStdout := c\<rparr>) = coordinator_ok cfg s"
  "coordinator_ok cfg (s\<lparr>globalStderr := c\<rparr>) = coordinator_ok cfg s"
  "coordinator_ok cfg (s\<lparr>forwarded := d\<rparr>) = coordinator_ok cfg s"
  by (simp_all add: coordinator_ok_def cong: dstate.case_cong)

lemma coordinator_ok_makeProcessLogLine:
  "coordinator_ok cfg s \<Longrightarrow> coordinator_ok cfg (makeProcessLogLine cfg st l s)"
  by (cases "debouncer s")
    (auto simp: coordinator_ok_def makeProcessLogLine_def Let_def waitForTurn_def)

lemma coordinator_ok_fold:
  "coordinator_ok cfg s \<Longrightarrow> coordinator_ok cfg (fold (makeProcessLogLine cfg st) ls s)"
  by (induction ls arbitrary: s) (simp_all add: coordinator_ok_makeProcessLogLine)

lemma list_all_batches_mono:
  "list_all (\<lambda>(t, es). t = tb \<and> es \<noteq> [] \<and> es \<in> set bs) xs \<Longrightarrow>
   list_all (\<lambda>(t, es). t = tb \<and> es \<noteq> [] \<and> es \<in> set (bs @ [b])) xs"
  by (induction xs) auto

lemma coordinator_ok_run_flush:
  assumes "coordinator_ok cfg s" and "debouncer s = Scheduled"
  shows "coordinator_ok cfg (run_flush cfg s)"
proof -
  from assms have q: "lineQueue s \<noteq> []" and f: "flights s = []"
      and p: "pushed s = concat (batches s) @ lineQueue s"
      and t: "list_all (\<lambda>(t, es). t = tableName cfg \<and> es \<noteq> [] \<and> es \<in> set (batches s))
         (inserts (trace s))"
    by (simp_all add: coordinator_ok_def)
  have n: "0 < numRetries" by (simp add: numRetries_def)
  from q f n have r: "run_flush cfg s =
      s\<lparr>lineQueue := [], debouncer := Flushing False, batches := batches s @ [lineQueue s],
        flights := [\<lparr>entries = lineQueue s, iter = 0, phase = AwaitInsert\<rparr>],
        trace := trace s @ [Insert (tableName cfg) (lineQueue s)]\<rparr>"
    by (simp add: run_flush_def attempt_def Let_def)
  show ?thesis
    unfolding r coordinator_ok_def using q p n list_all_batches_mono [OF t, of "lineQueue s"]
    by simp
qed

lemma coordinator_ok_step:
  assumes ok: "coordinator_ok cfg s" and st: "step cfg e s = Some s'"
  shows "coordinator_ok cfg s'"
proof (cases e)
  case (Append p bytes)
  with ok st show ?thesis by (auto split: if_splits)
next
  case (Add w p)
  with ok st show ?thesis by (auto split: if_splits sum.splits)
next
  case (Read i n)
  with ok st show ?thesis by (auto split: if_splits prod.splits)
next
  case (Forward i x)
  show ?thesis
  proof (cases x)
    case Stdout
    with Forward ok st show ?thesis
      by (auto split: if_splits list.splits prod.splits simp: coordinator_ok_fold)
  next
    case Stderr
    with Forward ok st show ?thesis
      by (auto split: if_splits list.splits prod.splits simp: coordinator_ok_fold)
  qed
next
  case (Stdin bytes)
  with ok st show ?thesis by (auto split: if_splits)
next
  case RunFlush
  with ok st show ?thesis by (auto split: if_splits simp: coordinator_ok_run_flush)
next
  case (SinkReply j err)
  with st have nf: "debouncer s \<noteq> Fatal" and j: "j < length (flights s)"
      and ph: "phase (flights s ! j) = AwaitInsert"
    by (auto split: if_splits)
  from ok j obtain p where d: "debouncer s = Flushing p"
    by (cases "debouncer s") (auto simp: coordinator_ok_def)
  with ok have l: "length (flights s) = 1" by (simp add: coordinator_ok_def)
  with j have j0: "j = 0" by simp
  from l obtain f where fl: "flights s = [f]" by (cases "flights s") simp_all
  show ?thesis
  proof (cases err)
    case None
    with SinkReply st nf j ph have "s' = settle Returned j s" by simp
    with ok d fl j0 show ?thesis
      by (cases p) (auto simp: coordinator_ok_def settle_def turn_done_def)
  next
    case (Some m)
    with SinkReply st nf j ph have "s' = s\<lparr>trace := trace s @ [Wait retryDelayMs],
        flights := (flights s)[j := (flights s ! j)\<lparr>phase := AwaitTimer\<rparr>]\<rparr>" by simp
    with ok d fl j0 show ?thesis
      by (auto simp: coordinator_ok_def)
  qed
next
  case (TimerFire j)
  with st have nf: "debouncer s \<noteq> Fatal" and j: "j < length (flights s)"
      and ph: "phase (flights s ! j) = AwaitTimer"
    by (auto split: if_splits)
  from ok j obtain p where d: "debouncer s = Flushing p"
    by (cases "debouncer s") (auto simp: coordinator_ok_def)
  with ok have l: "length (flights s) = 1" by (simp add: coordinator_ok_def)
  with j have j0: "j = 0" by simp
  from l obtain f where fl: "flights s = [f]" by (cases "flights s") simp_all
  from TimerFire st nf j ph have s': "s' = attempt cfg j
      (s\<lparr>flights := (flights s)[j := (flights s ! j)\<lparr>iter := iter (flights s ! j) + 1\<rparr>]\<rparr>)"
    by simp
  from ok d fl have e: "entries f = last (batches s)" "last (batches s) \<noteq> []" "batches s \<noteq> []"
    by (simp_all add: coordinator_ok_def)
  show ?thesis
  proof (cases "iter f + 1 < numRetries")
    case True
    with s' fl j0 have "s' = s\<lparr>flights := [f\<lparr>iter := iter f + 1, phase := AwaitInsert\<rparr>],
        trace := trace s @ [Insert (tableName cfg) (entries f)]\<rparr>"
      by (simp add: attempt_def Let_def)
    with ok d fl True e show ?thesis
      by (auto simp: coordinator_ok_def)
  next
    case False
    with s' fl j0 have "s' = s\<lparr>flights := [], debouncer := Fatal\<rparr>"
      by (simp add: attempt_def Let_def settle_def turn_done_def)
    with ok show ?thesis
      by (auto simp: coordinator_ok_def)
  qed
qed

lemma makeProcessLogLine_frame [simp]:
  "files (makeProcessLogLine cfg st l s) = files s"
  "watchers (makeProcessLogLine cfg st l s) = watchers s"
  "sessions (makeProcessLogLine cfg st l s) = sessions s"
  "globalStdout (makeProcessLogLine cfg st l s) = globalStdout s"
  "globalStderr (makeProcessLogLine cfg st l s) = globalStderr s"
  "forwarded (makeProcessLogLine cfg st l s) = forwarded s"
  "flights (makeProcessLogLine cfg st l s) = flights s"
  "trace (makeProcessLogLine cfg st l s) = trace s"
  "batches (makeProcessLogLine cfg st l s) = batches s"
  by (simp_all add: makeProcessLogLine_def Let_def)

lemma fold_makeProcessLogLine_frame [simp]:
  "files (fold (makeProcessLogLine cfg st) ls s) = files s"
  "watchers (fold (makeProcessLogLine cfg st) ls s) = watchers s"
  "sessions (fold (makeProcessLogLine cfg st) ls s) = sessions s"
  "globalStdout (fold (makeProcessLogLine cfg st) ls s) = globalStdout s"
  "globalStderr (fold (makeProcessLogLine cfg st) ls s) = globalStderr s"
  "forwarded (fold (makeProcessLogLine cfg st) ls s) = forwarded s"
  "flights (fold (makeProcessLogLine cfg st) ls s) = flights s"
  "trace (fold (makeProcessLogLine cfg st) ls s) = trace s"
  "batches (fold (makeProcessLogLine cfg st) ls s) = batches s"
  by (induction ls arbitrary: s) simp_all

lemma fold_makeProcessLogLine_pushed:
  "pushed (fold (makeProcessLogLine cfg st) ls s) =
     pushed s @ map (make_entry cfg st) (filter (\<lambda>l. l \<noteq> []) ls)"
  by (induction ls arbitrary: s) (simp_all add: makeProcessLogLine_def Let_def)

lemma fold_makeProcessLogLine_lineQueue:
  "lineQueue (fold (makeProcessLogLine cfg st) ls s) =
     lineQueue s @ map (make_entry cfg st) (filter (\<lambda>l. l \<noteq> []) ls)"
  by (induction ls arbitrary: s) (simp_all add: makeProcessLogLine_def Let_def)

lemma settle_frame [simp]:
  "files (settle r j s) = files s"
  "watchers (settle r j s) = watchers s"
  "sessions (settle r j s) = sessions s"
  "globalStdout (settle r j s) = globalStdout s"
  "globalStderr (settle r j s) = globalStderr s"
  "forwarded (settle r j s) = forwarded s"
  "pushed (settle r j s) = pushed s"
  "lineQueue (settle r j s) = lineQueue s"
  "batches (settle r j s) = batches s"
  "trace (settle r j s) = trace s"
  by (simp_all add: settle_def)

lemma attempt_frame [simp]:
  "files (attempt cfg j s) = files s"
  "watchers (attempt cfg j s) = watchers s"
  "sessions (attempt cfg j s) = sessions s"
  "globalStdout (attempt cfg j s) = globalStdout s"
  "globalStderr (attempt cfg j s) = globalStderr s"
  "forwarded (attempt cfg j s) = forwarded s"
  "pushed (attempt cfg j s) = pushed s"
  "lineQueue (attempt cfg j s) = lineQueue s"
  "batches (attempt cfg j s) = batches s"
  by (simp_all add: attempt_def Let_def)

lemma run_flush_frame [simp]:
  "files (run_flush cfg s) = files s"
  "watchers (run_flush cfg s) = watchers s"
  "sessions (run_flush cfg s) = sessions s"
  "globalStdout (run_flush cfg s) = globalStdout s"
  "globalStderr (run_flush cfg s) = globalStderr s"
  "forwarded (run_flush cfg s) = forwarded s"
  "pushed (run_flush cfg s) = pushed s"
  "lineQueue (run_flush cfg s) = []"
  "batches (run_flush cfg s) = batches s @ [lineQueue s]"
  by (simp_all add: run_flush_def Let_def)

lemma streams_ok_frame:
  "globalStdout s' = globalStdout s \<Longrightarrow> globalStderr s' = globalStderr s \<Longrightarrow>
   sessions s' = sessions s \<Longrightarrow> forwarded s' = forwarded s \<Longrightarrow> pushed s' = pushed s \<Longrightarrow>
   streams_ok cfg s' = streams_ok cfg s"
  by (simp add: streams_ok_def)

lemma tails_ok_frame:
  "files s' = files s \<Longrightarrow> sessions s' = sessions s \<Longrightarrow> forwarded s' = forwarded s \<Longrightarrow>
   tails_ok s' = tails_ok s"
  by (simp add: tails_ok_def)

lemma streams_ok_coordinator_steps [simp]:
  "streams_ok cfg (run_flush cfg s) = streams_ok cfg s"
  "streams_ok cfg (settle r j s) = streams_ok cfg s"
  "streams_ok cfg (attempt cfg j s) = streams_ok cfg s"
  "streams_ok cfg (s\<lparr>flights := fl\<rparr>) = streams_ok cfg s"
  "streams_ok cfg (s\<lparr>trace := tr\<rparr>) = streams_ok cfg s"
  by (rule streams_ok_frame; simp)+

lemma tails_ok_coordinator_steps [simp]:
  "tails_ok (run_flush cfg s) = tails_ok s"
  "tails_ok (settle r j s) = tails_ok s"
  "tails_ok (attempt cfg j s) = tails_ok s"
  "tails_ok (s\<lparr>flights := fl\<rparr>) = tails_ok s"
  "tails_ok (s\<lparr>trace := tr\<rparr>) = tails_ok s"
  "tails_ok (fold (makeProcessLogLine cfg st) ls s) = tails_ok s"
  by (rule tails_ok_frame; simp)+

lemma list_all_update:
  "list_all P xs \<Longrightarrow> P y \<Longrightarrow> list_all P (xs[i := y])"
  by (induction xs arbitrary: i) (auto split: nat.splits)

lemma chunk_ok_line: "l \<noteq> [] \<Longrightarrow> newline \<notin> set l \<Longrightarrow> chunk_ok (l @ [newline])"
  by (simp add: chunk_ok_def)

lemma tail_data_chunks:
  assumes "list_all chunk_ok (stdoutStream t)"
  shows "list_all chunk_ok (stdoutStream (tail_data chunk t))"
proof -
  have "chunk_ok (l @ [newline])"
    if l: "l \<in> set (butlast (split_nl (kLast t @ chunk)))" and n: "l \<noteq> []" for l
  proof -
    from l have "l \<in> set (split_nl (kLast t @ chunk))" by (rule in_set_butlastD)
    then have "newline \<notin> set l" by (rule split_nl_no_newline)
    with n show ?thesis by (rule chunk_ok_line)
  qed
  then have "list_all chunk_ok (map (\<lambda>l. l @ [newline])
      (filter (\<lambda>l. l \<noteq> []) (butlast (split_nl (kLast t @ chunk)))))"
    by (simp add: list_all_iff)
  with assms show ?thesis
    by (simp add: tail_data_eq)
qed

lemma tail_data_stderr [simp]: "stderrStream (tail_data chunk t) = stderrStream t"
  by (simp add: tail_data_eq)

lemma streams_ok_session:
  assumes "streams_ok cfg s" and "i < length (sessions s)"
  shows "stderrStream (sessions s ! i) = []" and "list_all chunk_ok (stdoutStream (sessions s ! i))"
proof -
  from assms(2) have "sessions s ! i \<in> set (sessions s)" by (rule nth_mem)
  with assms(1) have "stderrStream (sessions s ! i) = [] \<and>
      list_all chunk_ok (stdoutStream (sessions s ! i))"
    unfolding streams_ok_def list_all_iff [of _ "sessions s"] by blast
  then show "stderrStream (sessions s ! i) = []"
    and "list_all chunk_ok (stdoutStream (sessions s ! i))" by simp_all
qed

lemma streams_ok_step:
  assumes ok: "streams_ok cfg s" and st: "step cfg e s = Some s'"
  shows "streams_ok cfg s'"
proof (cases e)
  case (Append p bytes)
  with st have "s' = s\<lparr>files := (files s)(p \<mapsto> file_content (files s) p @ bytes)\<rparr>"
    by (auto split: if_splits)
  with ok show ?thesis by (simp add: streams_ok_def)
next
  case (Add w p)
  with st obtain t where t: "addTailStream (files s) p = Inr t" "s' = s\<lparr>sessions := sessions s @ [t]\<rparr>"
    by (auto split: if_splits sum.splits)
  from t(1) have "stderrStream t = []" "stdoutStream t = []"
    by (auto simp: addTailStream_def Let_def split: option.splits)
  with ok t(2) show ?thesis
    by (auto simp: streams_ok_def list_all_iff)
next
  case (Read i n)
  with st obtain chunk t where r: "i < length (sessions s)"
      "tail_read (files s) n (sessions s ! i) = (chunk, t)"
      "s' = s\<lparr>sessions := (sessions s)[i := tail_data chunk t]\<rparr>"
    by (auto split: if_splits prod.splits)
  from r(2) have t: "t = (sessions s ! i)\<lparr>cursor := cursor (sessions s ! i) + length chunk\<rparr>"
    by (auto simp: tail_read_def Let_def)
  from ok r(1) have "stderrStream (sessions s ! i) = [] \<and> list_all chunk_ok (stdoutStream (sessions s ! i))"
    by (simp add: streams_ok_session)
  with t have "stderrStream (tail_data chunk t) = [] \<and> list_all chunk_ok (stdoutStream (tail_data chunk t))"
    using tail_data_chunks [of t chunk] by simp
  with ok r(3) show ?thesis
    by (simp add: streams_ok_def list_all_update)
next
  case (Forward i x)
  show ?thesis
  proof (cases x)
    case Stdout
    with Forward st obtain chunk rest where f: "i < length (sessions s)"
        "stdoutStream (sessions s ! i) = chunk # rest"
      by (auto split: if_splits list.splits)
    from f streams_ok_session [OF ok f(1)]
    have c: "chunk_ok chunk" "list_all chunk_ok rest" "stderrStream (sessions s ! i) = []"
      by simp_all
    from ok have g: "globalStdout s = []" by (simp add: streams_ok_def)
    from c(1) have nb: "butlast chunk \<noteq> []" by (simp add: chunk_ok_def)
    from Forward Stdout st f g c(1) nb
    have s': "s' = makeProcessLogLine cfg ''stdout'' (butlast chunk)
        (s\<lparr>sessions := (sessions s)[i := (sessions s ! i)\<lparr>stdoutStream := rest\<rparr>],
           globalStdout := [], forwarded := forwarded s @ [(i, chunk)]\<rparr>)"
      by (auto split: if_splits simp: split2_write_line)
    from ok c have "list_all (\<lambda>t. stderrStream t = [] \<and> list_all chunk_ok (stdoutStream t))
        ((sessions s)[i := (sessions s ! i)\<lparr>stdoutStream := rest\<rparr>])"
      by (intro list_all_update) (simp_all add: streams_ok_def)
    with ok f(1) c(1) nb show ?thesis
      unfolding s' by (simp add: streams_ok_def makeProcessLogLine_def Let_def)
  next
    case Stderr
    with Forward st obtain chunk rest where f: "i < length (sessions s)"
        "stderrStream (sessions s ! i) = chunk # rest"
      by (auto split: if_splits list.splits)
    from ok f(1) have "stderrStream (sessions s ! i) = []"
      by (rule streams_ok_session)
    with f(2) show ?thesis by simp
  qed
next
  case (Stdin bytes)
  with ok st show ?thesis by (auto split: if_splits)
next
  case RunFlush
  with st have "s' = run_flush cfg s" by (auto split: if_splits)
  with ok show ?thesis by simp
next
  case (SinkReply j err)
  with st have "s' = settle Returned j s \<or> s' = s\<lparr>trace := trace s @ [Wait retryDelayMs],
        flights := (flights s)[j := (flights s ! j)\<lparr>phase := AwaitTimer\<rparr>]\<rparr>"
    by (auto split: if_splits option.splits)
  with ok show ?thesis by auto
next
  case (TimerFire j)
  with st have "s' = attempt cfg j
      (s\<lparr>flights := (flights s)[j := (flights s ! j)\<lparr>iter := iter (flights s ! j) + 1\<rparr>]\<rparr>)"
    by (auto split: if_splits)
  with ok show ?thesis by simp
qed

lemma tails_ok_nth:
  assumes "tails_ok s" and "i < length (sessions s)"
  shows "start (sessions s ! i) \<le> cursor (sessions s ! i)"
    and "cursor (sessions s ! i) \<le> length (file_content (files s) (path (sessions s ! i)))"
    and "kLast (sessions s ! i) = last (split_nl (session_input (files s) (sessions s ! i)))"
    and "forwarded_from i (forwarded s) @ stdoutStream (sessions s ! i) =
          map (\<lambda>l. l @ [newline]) (complete_lines (session_input (files s) (sessions s ! i)))"
  using assms by (simp_all add: tails_ok_def)

lemma file_content_append:
  "file_content (fs(p \<mapsto> file_content fs p @ bytes)) q =
     (if q = p then file_content fs p @ bytes else file_content fs q)"
  by (simp add: file_content_def)

lemma session_input_append:
  assumes "cursor t \<le> length (file_content fs (path t))"
  shows "session_input (fs(p \<mapsto> file_content fs p @ bytes)) t = session_input fs t"
proof (cases "path t = p")
  case True
  from assms have "cursor t - start t \<le> length (file_content fs (path t)) - start t"
    by simp
  with True show ?thesis
    by (simp add: session_input_def file_content_append)
next
  case False
  then show ?thesis by (simp add: session_input_def file_content_append)
qed

lemma session_input_read:
  assumes "start t \<le> cursor t"
    and "chunk = take n (drop (cursor t) (file_content fs (path t)))"
  shows "session_input fs (t\<lparr>cursor := cursor t + length chunk\<rparr>) = session_input fs t @ chunk"
proof -
  let ?xs = "drop (start t) (file_content fs (path t))"
  let ?a = "cursor t - start t"
  from assms(1) have d: "drop ?a ?xs = drop (cursor t) (file_content fs (path t))"
    by simp
  have "take (length chunk) (drop (cursor t) (file_content fs (path t))) = chunk"
    unfolding assms(2) by (simp add: min_def take_all)
  with d have "take (?a + length chunk) ?xs = take ?a ?xs @ chunk"
    by (simp add: take_add)
  moreover from assms(1) have "cursor t + length chunk - start t = ?a + length chunk"
    by simp
  ultimately show ?thesis by (simp add: session_input_def)
qed

lemma tail_data_fields [simp]:
  "path (tail_data chunk t) = path t"
  "start (tail_data chunk t) = start t"
  "cursor (tail_data chunk t) = cursor t"
  "kLast (tail_data chunk t) = last (split_nl (kLast t @ chunk))"
  "stdoutStream (tail_data chunk t) = stdoutStream t @
     map (\<lambda>l. l @ [newline]) (filter (\<lambda>l. l \<noteq> []) (butlast (split_nl (kLast t @ chunk))))"
  by (simp_all add: tail_data_eq)

lemma session_input_cong:
  "path t' = path t \<Longrightarrow> start t' = start t \<Longrightarrow> cursor t' = cursor t \<Longrightarrow>
   session_input fs t' = session_input fs t"
  by (simp add: session_input_def)

lemma forwarded_from_snoc:
  "forwarded_from i (fwd @ [(j, c)]) = (if j = i then forwarded_from i fwd @ [c] else forwarded_from i fwd)"
  by (simp add: forwarded_from_def)

lemma forwarded_from_fresh:
  "list_all (\<lambda>(j, c). j < n \<and> chunk_ok c) fwd \<Longrightarrow> forwarded_from n fwd = []"
  by (induction fwd) (auto simp: forwarded_from_def)

lemma tails_ok_step:
  assumes tk: "tails_ok s" and ok: "streams_ok cfg s" and st: "step cfg e s = Some s'"
  shows "tails_ok s'"
proof (cases e)
  case (Append p bytes)
  with st have s': "s' = s\<lparr>files := (files s)(p \<mapsto> file_content (files s) p @ bytes)\<rparr>"
    by (auto split: if_splits)
  show ?thesis
    unfolding tails_ok_def
  proof (intro allI impI)
    fix i assume "i < length (sessions s')"
    with s' have i: "i < length (sessions s)" by simp
    note t = tails_ok_nth [OF tk i]
    from t(2) have "cursor (sessions s ! i) \<le>
        length (file_content ((files s)(p \<mapsto> file_content (files s) p @ bytes)) (path (sessions s ! i)))"
      by (cases "path (sessions s ! i) = p") (simp_all add: file_content_append)
    with t show "start (sessions s' ! i) \<le> cursor (sessions s' ! i) \<and>
        cursor (sessions s' ! i) \<le> length (file_content (files s') (path (sessions s' ! i))) \<and>
        kLast (sessions s' ! i) = last (split_nl (session_input (files s') (sessions s' ! i))) \<and>
        forwarded_from i (forwarded s') @ stdoutStream (sessions s' ! i) =
          map (\<lambda>l. l @ [newline]) (complete_lines (session_input (files s') (sessions s' ! i)))"
      unfolding s' by (simp add: session_input_append)
  qed
next
  case (Add w p)
  with st obtain t where t: "addTailStream (files s) p = Inr t" "s' = s\<lparr>sessions := sessions s @ [t]\<rparr>"
    by (auto split: if_splits sum.splits)
  from t(1) obtain content where c: "files s p = Some content"
      "t = \<lparr>path = p, start = length content, cursor = length content, kLast = [],
            stdoutStream = [], stderrStream = []\<rparr>"
    by (auto simp: addTailStream_def Let_def split: option.splits)
  from ok have fr: "forwarded_from (length (sessions s)) (forwarded s) = []"
    by (simp add: streams_ok_def forwarded_from_fresh)
  show ?thesis
    unfolding tails_ok_def
  proof (intro allI impI)
    fix i assume "i < length (sessions s')"
    with t(2) have "i < length (sessions s) \<or> i = length (sessions s)" by auto
    then show "start (sessions s' ! i) \<le> cursor (sessions s' ! i) \<and>
        cursor (sessions s' ! i) \<le> length (file_content (files s') (path (sessions s' ! i))) \<and>
        kLast (sessions s' ! i) = last (split_nl (session_input (files s') (sessions s' ! i))) \<and>
        forwarded_from i (forwarded s') @ stdoutStream (sessions s' ! i) =
          map (\<lambda>l. l @ [newline]) (complete_lines (session_input (files s') (sessions s' ! i)))"
    proof
      assume i: "i < length (sessions s)"
      from tails_ok_nth [OF tk i] i show ?thesis
        unfolding t(2) by (simp add: nth_append)
    next
      assume i: "i = length (sessions s)"
      with c fr show ?thesis
        unfolding t(2) by (simp add: session_input_def file_content_def complete_lines_def)
    qed
  qed
next
  case (Read i n)
  with st obtain chunk t where r: "i < length (sessions s)"
      "tail_read (files s) n (sessions s ! i) = (chunk, t)"
      "s' = s\<lparr>sessions := (sessions s)[i := tail_data chunk t]\<rparr>"
    by (auto split: if_splits prod.splits)
  let ?t = "sessions s ! i"
  from r(2) have ch: "chunk = take n (drop (cursor ?t) (file_content (files s) (path ?t)))"
    and t: "t = ?t\<lparr>cursor := cursor ?t + length chunk\<rparr>"
    by (auto simp: tail_read_def Let_def)
  note ti = tails_ok_nth [OF tk r(1)]
  have inp: "session_input (files s) t = session_input (files s) ?t @ chunk"
    unfolding t using ti(1) ch by (rule session_input_read)
  have inp': "session_input (files s) (tail_data chunk t) = session_input (files s) ?t @ chunk"
    using inp session_input_cong [of "tail_data chunk t" t "files s"] by simp
  from ch have len: "cursor ?t + length chunk \<le> length (file_content (files s) (path ?t))"
    using ti(2) by simp
  have kl: "kLast t = kLast ?t" and so: "stdoutStream t = stdoutStream ?t"
    and pa: "path t = path ?t" and sta: "start t = start ?t"
    and cu: "cursor t = cursor ?t + length chunk"
    unfolding t by simp_all
  show ?thesis
    unfolding tails_ok_def
  proof (intro allI impI)
    fix k assume "k < length (sessions s')"
    with r(3) have k: "k < length (sessions s)" by simp
    show "start (sessions s' ! k) \<le> cursor (sessions s' ! k) \<and>
        cursor (sessions s' ! k) \<le> length (file_content (files s') (path (sessions s' ! k))) \<and>
        kLast (sessions s' ! k) = last (split_nl (session_input (files s') (sessions s' ! k))) \<and>
        forwarded_from k (forwarded s') @ stdoutStream (sessions s' ! k) =
          map (\<lambda>l. l @ [newline]) (complete_lines (session_input (files s') (sessions s' ! k)))"
    proof (cases "k = i")
      case True
      have a: "sessions s' ! k = tail_data chunk t" "files s' = files s" "forwarded s' = forwarded s"
        unfolding r(3) using True r(1) by simp_all
      have "forwarded_from i (forwarded s) @ stdoutStream (tail_data chunk t) =
          map (\<lambda>l. l @ [newline]) (complete_lines (session_input (files s) ?t @ chunk))"
        using ti(4) by (simp add: so kl ti(3) complete_lines_append)
      moreover have "kLast (tail_data chunk t) = last (split_nl (session_input (files s) ?t @ chunk))"
        by (simp add: kl ti(3) last_split_nl_append [of "session_input (files s) ?t" chunk])
      ultimately show ?thesis
        unfolding a inp' using ti(1) len True by (simp add: pa sta cu)
    next
      case False
      with tails_ok_nth [OF tk k] k show ?thesis
        unfolding r(3) by simp
    qed
  qed
next
  case (Forward i x)
  show ?thesis
  proof (cases x)
    case Stdout
    with Forward st obtain chunk rest where f: "i < length (sessions s)"
        "stdoutStream (sessions s ! i) = chunk # rest"
      by (auto split: if_splits list.splits)
    let ?s1 = "s\<lparr>sessions := (sessions s)[i := (sessions s ! i)\<lparr>stdoutStream := rest\<rparr>],
           globalStdout := snd (split2_write (globalStdout s) chunk),
           forwarded := forwarded s @ [(i, chunk)]\<rparr>"
    from Forward Stdout st f
    have s': "s' = fold (makeProcessLogLine cfg ''stdout'') (fst (split2_write (globalStdout s) chunk)) ?s1"
      by (auto split: if_splits prod.splits)
    have "tails_ok ?s1"
      unfolding tails_ok_def
    proof (intro allI impI)
      fix k assume "k < length (sessions ?s1)"
      then have k: "k < length (sessions s)" by simp
      show "start (sessions ?s1 ! k) \<le> cursor (sessions ?s1 ! k) \<and>
        cursor (sessions ?s1 ! k) \<le> length (file_content (files ?s1) (path (sessions ?s1 ! k))) \<and>
        kLast (sessions ?s1 ! k) = last (split_nl (session_input (files ?s1) (sessions ?s1 ! k))) \<and>
        forwarded_from k (forwarded ?s1) @ stdoutStream (sessions ?s1 ! k) =
          map (\<lambda>l. l @ [newline]) (complete_lines (session_input (files ?s1) (sessions ?s1 ! k)))"
      proof (cases "k = i")
        case True
        have "session_input (files s) ((sessions s ! i)\<lparr>stdoutStream := rest\<rparr>) =
            session_input (files s) (sessions s ! i)"
          by (rule session_input_cong) simp_all
        with tails_ok_nth [OF tk f(1)] f True show ?thesis
          by (simp add: forwarded_from_snoc)
      next
        case False
        with tails_ok_nth [OF tk k] k show ?thesis
          by (simp add: forwarded_from_snoc)
      qed
    qed
    then show ?thesis unfolding s' by simp
  next
    case Stderr
    with Forward st obtain chunk rest where f: "i < length (sessions s)"
        "stderrStream (sessions s ! i) = chunk # rest"
      by (auto split: if_splits list.splits)
    from ok f(1) have "stderrStream (sessions s ! i) = []"
      by (rule streams_ok_session)
    with f(2) show ?thesis by simp
  qed
next
  case (Stdin bytes)
  with tk st show ?thesis by (auto split: if_splits)
next
  case RunFlush
  with st have "s' = run_flush cfg s" by (auto split: if_splits)
  with tk show ?thesis by simp
next
  case (SinkReply j err)
  with st have "s' = settle Returned j s \<or> s' = s\<lparr>trace := trace s @ [Wait retryDelayMs],
        flights := (flights s)[j := (flights s ! j)\<lparr>phase := AwaitTimer\<rparr>]\<rparr>"
    by (auto split: if_splits option.splits)
  with tk show ?thesis by auto
next
  case (TimerFire j)
  with st have "s' = attempt cfg j
      (s\<lparr>flights := (flights s)[j := (flights s ! j)\<lparr>iter := iter (flights s ! j) + 1\<rparr>]\<rparr>)"
    by (auto split: if_splits)
  with tk show ?thesis by simp
qed

lemma init_state_ok:
  "coordinator_ok cfg (init_state fs ws)" "streams_ok cfg (init_state fs ws)"
  "tails_ok (init_state fs ws)"
  by (simp_all add: init_state_def coordinator_ok_def streams_ok_def tails_ok_def)

lemma run_ok:
  assumes "run cfg evs (init_state fs ws) = Some s"
  shows "coordinator_ok cfg s" and "streams_ok cfg s" and "tails_ok s"
proof -
  let ?Q = "\<lambda>s. coordinator_ok cfg s \<and> streams_ok cfg s \<and> tails_ok s"
  have "?Q s"
  proof (rule run_invariant [where Q = ?Q, OF _ _ assms])
    show "?Q (init_state fs ws)" by (simp add: init_state_ok)
  next
    fix e s s' assume "?Q s" and "step cfg e s = Some s'"
    then show "?Q s'"
      using coordinator_ok_step streams_ok_step tails_ok_step by blast
  qed
  then show "coordinator_ok cfg s" and "streams_ok cfg s" and "tails_ok s" by simp_all
qed

section \<open>Properties of the records\<close>

lemma field_make_entry_content [simp]:
  "field (make_entry cfg st l) ''content'' = Some (JStr l)"
  by (simp add: field_def make_entry_def update_conv')

lemma field_make_entry_stream [simp]:
  "field (make_entry cfg st l) ''stream'' = Some (JStr st)"
  by (simp add: field_def make_entry_def update_conv')



lemma pushed_form:
  assumes "streams_ok cfg s" and "e \<in> set (pushed s)"
  shows "\<exists>l. l \<noteq> [] \<and> e = make_entry cfg ''stdout'' l"
proof -
  from assms obtain j c where jc: "(j, c) \<in> set (forwarded s)"
      "e = make_entry cfg ''stdout'' (butlast c)"
    by (auto simp: streams_ok_def)
  from assms(1) jc(1) have "chunk_ok c"
    by (auto simp: streams_ok_def list_all_iff)
  then have "butlast c \<noteq> []" by (simp add: chunk_ok_def)
  with jc(2) show ?thesis by blast
qed

lemma delivered_pushed:
  assumes "coordinator_ok cfg s"
  shows "set (delivered s) \<subseteq> set (pushed s)"
proof
  fix e assume "e \<in> set (delivered s)"
  then obtain tb es where i: "(tb, es) \<in> set (inserts (trace s))" "e \<in> set es"
    by (auto simp: delivered_def)
  with assms have "es \<in> set (batches s)"
    by (auto simp: coordinator_ok_def list_all_iff)
  with i(2) assms show "e \<in> set (pushed s)"
    by (auto simp: coordinator_ok_def)
qed


lemma example_run:
  "\<exists>s. run example_config example_events (init_state Map.empty [''/a.log'']) = Some s \<and>
     debouncer s = Flushing True \<and>
     map (\<lambda>e. field e ''content'') (lineQueue s) = [Some (JStr ''two''), Some (JStr ''three'')] \<and>
     trace s = [Insert ''logs'' [make_entry example_config ''stdout'' ''one'']] \<and>
     delivered s = [make_entry example_config ''stdout'' ''one''] \<and>
     pushed s = [make_entry example_config ''stdout'' ''one'', make_entry example_config ''stdout'' ''two'',
        make_entry example_config ''stdout'' ''three'']"
  by (simp add: example_events_def example_config_def init_state_def addTailStream_def
      tail_read_def file_content_def tail_data_eq split2_write_def newline_def makeProcessLogLine_def
      waitForTurn_def run_flush_def attempt_def numRetries_def delivered_def Let_def
      field_def make_entry_def)







lemma lineQueue_pushed: "coordinator_ok cfg s \<Longrightarrow> set (lineQueue s) \<subseteq> set (pushed s)"
  by (auto simp: coordinator_ok_def)

lemma content_nonempty_make_entry: "l \<noteq> [] \<Longrightarrow> content_nonempty (make_entry cfg st l)"
  by (simp add: content_nonempty_def)

text \<open>
  Claim C5. An empty line makes the handler of a session write nothing to its stdout
  stream, and makes \<open>makeProcessLogLine\<close> create no record, push nothing and request no
  turn. In every state the program reaches, every chunk waiting in a session's stdout
  stream holds a non-empty line, and every record pushed, queued or sent to the sink has a
  non-empty \<open>content\<close>.
\<close>

theorem empty_lines_dropped:
  "tail_line [] t = t \<and> makeProcessLogLine cfg st [] s0 = s0 \<and>
   (run cfg evs (init_state fs ws) = Some s \<longrightarrow>
      list_all (\<lambda>t. list_all (\<lambda>c. butlast c \<noteq> []) (stdoutStream t)) (sessions s) \<and>
      list_all content_nonempty (pushed s) \<and>
      list_all content_nonempty (lineQueue s) \<and>
      list_all content_nonempty (delivered s))"
proof (intro conjI impI)
  show "tail_line [] t = t" by (simp add: tail_line_def)
  show "makeProcessLogLine cfg st [] s0 = s0" by (simp add: makeProcessLogLine_def)
next
  assume r: "run cfg evs (init_state fs ws) = Some s"
  note ok = run_ok [OF r]
  from ok(2) show "list_all (\<lambda>t. list_all (\<lambda>c. butlast c \<noteq> []) (stdoutStream t)) (sessions s)"
    by (auto simp: streams_ok_def list_all_iff chunk_ok_def)
  have p: "content_nonempty e" if "e \<in> set (pushed s)" for e
    using pushed_form [OF ok(2) that] content_nonempty_make_entry by blast
  then show "list_all content_nonempty (pushed s)" by (simp add: list_all_iff)
  from p lineQueue_pushed [OF ok(1)] show "list_all content_nonempty (lineQueue s)"
    unfolding list_all_iff by blast
  from p delivered_pushed [OF ok(1)] show "list_all content_nonempty (delivered s)"
    unfolding list_all_iff by blast
qed

theorem empty_lines_dropped_witness:
  "tail_line [] \<lparr>path = ''/a.log'', start = 0, cursor = 0, kLast = [], stdoutStream = [],
       stderrStream = []\<rparr> =
     \<lparr>path = ''/a.log'', start = 0, cursor = 0, kLast = [], stdoutStream = [], stderrStream = []\<rparr> \<and>
   makeProcessLogLine example_config ''stdout'' [] (init_state Map.empty []) = init_state Map.empty [] \<and>
   (\<exists>s. run example_config example_events (init_state Map.empty [''/a.log'']) = Some s \<and>
      map (\<lambda>e. field e ''content'') (pushed s) =
        [Some (JStr ''one''), Some (JStr ''two''), Some (JStr ''three'')] \<and>
      list_all content_nonempty (pushed s) \<and>
      list_all content_nonempty (lineQueue s) \<and>
      list_all content_nonempty (delivered s))"
proof -
  from example_run obtain s where
    s: "run example_config example_events (init_state Map.empty [''/a.log'']) = Some s"
      "pushed s = [make_entry example_config ''stdout'' ''one'',
         make_entry example_config ''stdout'' ''two'', make_entry example_config ''stdout'' ''three'']"
    by blast
  note w = empty_lines_dropped [of "\<lparr>path = ''/a.log'', start = 0, cursor = 0, kLast = [],
      stdoutStream = [], stderrStream = []\<rparr>" example_config "''stdout''" "init_state Map.empty []"
      example_events Map.empty "[''/a.log'']" s]
  from s(2) have "map (\<lambda>e. field e ''content'') (pushed s) =
        [Some (JStr ''one''), Some (JStr ''two''), Some (JStr ''three'')]"
    by simp
  with w s(1) show ?thesis by simp
qed

text \<open>
  Claim C10. In every state the program reaches, every record pushed on the queue or sent
  to the sink has the stream tag \<open>stdout\<close>: the stderr stream of every session is empty,
  so is the splitter of the global stderr stream, and no chunk can be piped from a
  session's stderr stream.
\<close>

theorem stdout_only:
  assumes "run cfg evs (init_state fs ws) = Some s"
  shows "list_all (\<lambda>e. field e ''stream'' = Some (JStr ''stdout'')) (delivered s) \<and>
         list_all (\<lambda>e. field e ''stream'' = Some (JStr ''stdout'')) (pushed s) \<and>
         list_all (\<lambda>t. stderrStream t = []) (sessions s) \<and> globalStderr s = [] \<and>
         step cfg (Forward i Stderr) s = None"
proof -
  note ok = run_ok [OF assms]
  have p: "field e ''stream'' = Some (JStr ''stdout'')" if "e \<in> set (pushed s)" for e
    using pushed_form [OF ok(2) that] by auto
  from ok(2) have e: "list_all (\<lambda>t. stderrStream t = []) (sessions s)" "globalStderr s = []"
    by (auto simp: streams_ok_def list_all_iff)
  have "step cfg (Forward i Stderr) s = None"
  proof (cases "i < length (sessions s)")
    case True
    with ok(2) have "stderrStream (sessions s ! i) = []" by (rule streams_ok_session)
    then show ?thesis by simp
  next
    case False
    then show ?thesis by simp
  qed
  moreover from p have "list_all (\<lambda>e. field e ''stream'' = Some (JStr ''stdout'')) (pushed s)"
    by (simp add: list_all_iff)
  moreover from p delivered_pushed [OF ok(1)]
  have "list_all (\<lambda>e. field e ''stream'' = Some (JStr ''stdout'')) (delivered s)"
    unfolding list_all_iff by blast
  ultimately show ?thesis using e by blast
qed

theorem stdout_only_witness:
  "\<exists>s. run example_config example_events (init_state Map.empty [''/a.log'']) = Some s \<and>
     delivered s = [make_entry example_config ''stdout'' ''one''] \<and>
     list_all (\<lambda>e. field e ''stream'' = Some (JStr ''stdout'')) (delivered s) \<and>
     list_all (\<lambda>e. field e ''stream'' = Some (JStr ''stdout'')) (pushed s) \<and>
     list_all (\<lambda>t. stderrStream t = []) (sessions s) \<and>
     step example_config (Forward 0 Stderr) s = None"
proof -
  from example_run obtain s where
    s: "run example_config example_events (init_state Map.empty [''/a.log'']) = Some s"
      "delivered s = [make_entry example_config ''stdout'' ''one'']"
    by blast
  from stdout_only [OF s(1), of 0] s show ?thesis by simp
qed

section \<open>Fixed retry policy and standard input\<close>





lemma no_watcher_step:
  assumes "watchers s = [] \<and> sessions s = [] \<and> pushed s = [] \<and> lineQueue s = [] \<and>
      trace s = [] \<and> flights s = [] \<and> debouncer s = Idle"
    and "step cfg e s = Some s'"
  shows "watchers s' = [] \<and> sessions s' = [] \<and> pushed s' = [] \<and> lineQueue s' = [] \<and>
      trace s' = [] \<and> flights s' = [] \<and> debouncer s' = Idle"
proof (cases e)
  case (Forward i x)
  with assms show ?thesis by (cases x) simp_all
qed (use assms in \<open>auto split: if_splits\<close>)

text \<open>
  Claim C7, on the code. With the sentinel as the only source no watcher is set up, and
  whatever arrives on standard input or happens to the files, the program opens no
  session, pushes no record and makes no \<open>insert\<close> call.
\<close>

theorem stdin_not_read:
  assumes "run cfg evs (init_state fs (watch_paths resolve [''-''] [])) = Some s"
  shows "watch_paths resolve [''-''] [] = [] \<and> sessions s = [] \<and> pushed s = [] \<and>
         lineQueue s = [] \<and> trace s = []"
proof -
  let ?Q = "\<lambda>s. watchers s = [] \<and> sessions s = [] \<and> pushed s = [] \<and> lineQueue s = [] \<and>
      trace s = [] \<and> flights s = [] \<and> debouncer s = Idle"
  have "?Q s"
  proof (rule run_invariant [where Q = ?Q, OF _ _ assms])
    show "?Q (init_state fs (watch_paths resolve [''-''] []))" by (simp add: init_state_def)
  next
    fix e s s' assume "?Q s" and "step cfg e s = Some s'"
    then show "?Q s'" by (rule no_watcher_step)
  qed
  then show ?thesis by simp
qed

theorem stdin_not_read_witness:
  "\<exists>s. run example_config stdin_events (init_state Map.empty (watch_paths (\<lambda>p. p) [''-''] [])) = Some s \<and>
     sessions s = [] \<and> pushed s = [] \<and> lineQueue s = [] \<and> trace s = []"
proof -
  have "\<exists>s. run example_config stdin_events (init_state Map.empty (watch_paths (\<lambda>p. p) [''-''] [])) = Some s"
    by (simp add: stdin_events_def init_state_def)
  then obtain s where
    s: "run example_config stdin_events (init_state Map.empty (watch_paths (\<lambda>p. p) [''-''] [])) = Some s"
    by blast
  from stdin_not_read [OF s] s show ?thesis by simp
qed

section \<open>Properties of the pipeline\<close>









lemma map_butlast_lines [simp]:
  "map butlast (map (\<lambda>l. l @ [newline]) ls) = ls"
  "map (butlast \<circ> (\<lambda>l. l @ [newline])) ls = ls"
  by (induction ls) simp_all

















section \<open>The delivery loop in the transition system\<close>

lemma insert_loop_unfold:
  "i < numRetries \<Longrightarrow> sink i = None \<Longrightarrow>
     insert_loop cfg sink es i = ([Insert (tableName cfg) es], Returned)"
  "i < numRetries \<Longrightarrow> sink i = Some err \<Longrightarrow>
     insert_loop cfg sink es i =
       (Insert (tableName cfg) es # Wait retryDelayMs # fst (insert_loop cfg sink es (Suc i)),
        snd (insert_loop cfg sink es (Suc i)))"
  "\<not> i < numRetries \<Longrightarrow>
     insert_loop cfg sink es i = ([], Thrown ''failed to insert log after 10 retries'')"
  by (subst insert_loop.simps; simp add: split_beta)+

lemma insert_loop_hd:
  "i < numRetries \<Longrightarrow>
   fst (insert_loop cfg sink es i) = Insert (tableName cfg) es # tl (fst (insert_loop cfg sink es i))"
  by (cases "sink i") (simp_all add: insert_loop_unfold)

lemma flight_agrees:
  assumes "flights s = [f]" and "phase f = AwaitInsert" and "iter f = i" and "i + k = numRetries"
    and "0 < k" and "debouncer s = Flushing p"
  shows "\<exists>s'. run cfg (sink_events sink k i) s = Some s' \<and>
           trace s' = trace s @ tl (fst (insert_loop cfg sink (entries f) i)) \<and>
           flights s' = [] \<and> lineQueue s' = lineQueue s \<and> batches s' = batches s \<and>
           debouncer s' = turn_done (snd (insert_loop cfg sink (entries f) i)) (Flushing p)"
  using assms
proof (induction k arbitrary: i s f)
  case 0
  then show ?case by simp
next
  case (Suc k)
  from Suc.prems have i: "i < numRetries" by simp
  show ?case
  proof (cases "sink i")
    case None
    with Suc.prems i show ?thesis
      by (simp add: insert_loop_unfold settle_def)
  next
    case (Some err)
    let ?s1 = "s\<lparr>trace := trace s @ [Wait retryDelayMs], flights := [f\<lparr>phase := AwaitTimer\<rparr>]\<rparr>"
    from Suc.prems have st1: "step cfg (SinkReply 0 (Some err)) s = Some ?s1" by simp
    show ?thesis
    proof (cases "k = 0")
      case True
      with Suc.prems have n: "\<not> Suc i < numRetries" by simp
      from Suc.prems n have "step cfg (TimerFire 0) ?s1 =
          Some (?s1\<lparr>flights := [], debouncer := Fatal\<rparr>)"
        by (simp add: attempt_def settle_def turn_done_def Let_def)
      with st1 True Some i n show ?thesis
        by (simp add: insert_loop_unfold turn_done_def)
    next
      case False
      with Suc.prems have n: "Suc i < numRetries" by simp
      let ?f2 = "f\<lparr>iter := Suc i, phase := AwaitInsert\<rparr>"
      let ?s2 = "s\<lparr>trace := trace s @ [Wait retryDelayMs, Insert (tableName cfg) (entries f)],
          flights := [?f2]\<rparr>"
      from Suc.prems n have st2: "step cfg (TimerFire 0) ?s1 = Some ?s2"
        by (simp add: attempt_def Let_def)
      from Suc.prems False have "\<exists>s'. run cfg (sink_events sink k (Suc i)) ?s2 = Some s' \<and>
           trace s' = trace ?s2 @ tl (fst (insert_loop cfg sink (entries ?f2) (Suc i))) \<and>
           flights s' = [] \<and> lineQueue s' = lineQueue ?s2 \<and> batches s' = batches ?s2 \<and>
           debouncer s' = turn_done (snd (insert_loop cfg sink (entries ?f2) (Suc i))) (Flushing p)"
        by (intro Suc.IH) simp_all
      then obtain s' where s': "run cfg (sink_events sink k (Suc i)) ?s2 = Some s'"
          "trace s' = trace ?s2 @ tl (fst (insert_loop cfg sink (entries f) (Suc i)))"
          "flights s' = []" "lineQueue s' = lineQueue s" "batches s' = batches s"
          "debouncer s' = turn_done (snd (insert_loop cfg sink (entries f) (Suc i))) (Flushing p)"
        by auto
      from insert_loop_hd [OF n, of cfg sink "entries f"]
      have h: "Insert (tableName cfg) (entries f) # tl (fst (insert_loop cfg sink (entries f) (Suc i))) =
          fst (insert_loop cfg sink (entries f) (Suc i))" by simp
      have "run cfg (sink_events sink (Suc k) i) s = Some s'"
        using Some st1 st2 s'(1) by simp
      moreover have "trace s' = trace s @ tl (fst (insert_loop cfg sink (entries f) i))"
        using s'(2) h i Some by (simp add: insert_loop_unfold)
      moreover have "debouncer s' = turn_done (snd (insert_loop cfg sink (entries f) i)) (Flushing p)"
        using s'(6) i Some by (simp add: insert_loop_unfold)
      ultimately show ?thesis using s'(3,4,5) by blast
    qed
  qed
qed

lemma flush_agrees:
  assumes "debouncer s = Scheduled" and "flights s = []" and "lineQueue s \<noteq> []"
  shows "\<exists>s'. run cfg (RunFlush # sink_events sink numRetries 0) s = Some s' \<and>
           (lineQueue s', trace s', debouncer s') =
             (case flush_callback cfg sink (lineQueue s) of
                (queue', tr, r) \<Rightarrow> (queue', trace s @ tr, turn_done r (Flushing False))) \<and>
           flights s' = [] \<and> batches s' = batches s @ [lineQueue s]"
proof -
  let ?f = "\<lparr>entries = lineQueue s, iter = 0, phase = AwaitInsert\<rparr>"
  let ?s1 = "s\<lparr>lineQueue := [], debouncer := Flushing False, batches := batches s @ [lineQueue s],
        flights := [?f], trace := trace s @ [Insert (tableName cfg) (lineQueue s)]\<rparr>"
  have n: "0 < numRetries" by (simp add: numRetries_def)
  from assms n have st: "step cfg RunFlush s = Some ?s1"
    by (simp add: run_flush_def attempt_def Let_def)
  have "\<exists>s'. run cfg (sink_events sink numRetries 0) ?s1 = Some s' \<and>
           trace s' = trace ?s1 @ tl (fst (insert_loop cfg sink (entries ?f) 0)) \<and>
           flights s' = [] \<and> lineQueue s' = lineQueue ?s1 \<and> batches s' = batches ?s1 \<and>
           debouncer s' = turn_done (snd (insert_loop cfg sink (entries ?f) 0)) (Flushing False)"
    using n by (intro flight_agrees) simp_all
  then obtain s' where s': "run cfg (sink_events sink numRetries 0) ?s1 = Some s'"
      "trace s' = trace ?s1 @ tl (fst (insert_loop cfg sink (lineQueue s) 0))"
      "flights s' = []" "lineQueue s' = []" "batches s' = batches s @ [lineQueue s]"
      "debouncer s' = turn_done (snd (insert_loop cfg sink (lineQueue s) 0)) (Flushing False)"
    by auto
  from insert_loop_hd [OF n, of cfg sink "lineQueue s"] s'(2)
  have t: "trace s' = trace s @ fst (insert_loop cfg sink (lineQueue s) 0)"
    by simp
  from st s'(1) have "run cfg (RunFlush # sink_events sink numRetries 0) s = Some s'" by simp
  with t s'(3-6) assms(3) show ?thesis
    by (simp add: flush_callback_def split_beta)
qed

end
